theory Spec2Isabelle
  imports Main
begin

section \<open>The Synchronized queue of src/src/synchronized.ts\<close>

text \<open>
  The class holds two fields, \<^verbatim>\<open>queue\<close> (an array of wrapper closures) and
  \<^verbatim>\<open>isRunning\<close>. JavaScript runs every piece of synchronous code to completion, so
  the program is a state machine whose atomic steps are
  \<^item> one call of \<^verbatim>\<open>execute\<close>, up to the point where it returns its promise, and
  \<^item> the resumption of one wrapper that was suspended at \<^verbatim>\<open>await asyncFunction()\<close>,
    once the awaited promise has settled.

  The caller's \<^verbatim>\<open>asyncFunction\<close> is opaque. What the queue can observe of it is
  whether the call throws, or returns a promise, and how that promise settles. A call of
  \<^verbatim>\<open>execute\<close> that a critical section makes on its own instance is one more call of
  \<^verbatim>\<open>execute\<close>: \<^verbatim>\<open>isRunning\<close> is true whenever \<^verbatim>\<open>asyncFunction\<close> is called, so
  such a call only pushes, and it is a step of its own here.
\<close>

datatype ('v, 'e) outcome = Fulfilled 'v | Rejected 'e

datatype ('v, 'e) work = Throws 'e | Returns "('v, 'e) outcome"

text \<open>
  The history records when the body of a critical section starts (the call
  \<^verbatim>\<open>asyncFunction()\<close>) and when it is over (the call has thrown, or its promise has
  settled and the wrapper goes on). Sections are named by the number of the promise that
  \<^verbatim>\<open>execute\<close> created for them.
\<close>

datatype event = Begin nat | End nat

text \<open>
  A queue entry is the closure pushed by \<^verbatim>\<open>execute\<close>: it captures
  \<^verbatim>\<open>asyncFunction\<close> and the \<^verbatim>\<open>resolve\<close>/\<^verbatim>\<open>reject\<close> pair of one promise.
  \<open>awaiting\<close> holds the wrappers suspended at the \<^verbatim>\<open>await\<close>, each with the way
  its awaited promise is going to settle. \<open>promises\<close> holds, for every promise created by
  \<^verbatim>\<open>execute\<close>, the calls of \<^verbatim>\<open>resolve\<close> (\<open>Fulfilled\<close>) and
  \<^verbatim>\<open>reject\<close> (\<open>Rejected\<close>) made on it so far, in order.
\<close>

record ('v, 'e) synchronized =
  queue :: "(nat \<times> ('v, 'e) work) list"
  isRunning :: bool
  awaiting :: "(nat \<times> ('v, 'e) outcome) list"
  promises :: "('v, 'e) outcome list list"
  history :: "event list"

definition constructor :: "('v, 'e) synchronized" where
  "constructor = \<lparr>queue = [], isRunning = False, awaiting = [], promises = [], history = []\<rparr>"

text \<open>One call of \<^verbatim>\<open>resolve(result)\<close> or \<^verbatim>\<open>reject(error)\<close> on promise \<open>p\<close>.\<close>

definition deliver :: "nat \<Rightarrow> ('v, 'e) outcome \<Rightarrow> ('v, 'e) outcome list list \<Rightarrow> ('v, 'e) outcome list list" where
  "deliver p out ps = ps[p := ps ! p @ [out]]"

text \<open>
  \<open>processQueue\<close> is the synchronous part of \<^verbatim>\<open>processQueue()\<close>: the test
  \<^verbatim>\<open>this.queue.length && (this.isRunning = true) != null\<close>, the \<^verbatim>\<open>shift()\<close> and the
  call \<^verbatim>\<open>fn()\<close>. \<open>wrapper_call\<close> is the wrapper up to its \<^verbatim>\<open>await\<close>: it calls
  \<^verbatim>\<open>asyncFunction()\<close>; when that call returns a promise the wrapper is suspended; when
  it throws, the \<^verbatim>\<open>catch\<close> block rejects and the wrapper calls
  \<^verbatim>\<open>this.processQueue()\<close> at once. The entries are closures, so the test
  \<^verbatim>\<open>if (fn)\<close> on the head of a non-empty queue always succeeds. Nothing follows
  \<^verbatim>\<open>await fn()\<close> in \<^verbatim>\<open>processQueue\<close>, so its own resumption has no effect.

  On the throwing path nothing has been awaited, so that call of
  \<^verbatim>\<open>this.processQueue()\<close> (line 38) and the call \<^verbatim>\<open>fn()\<close> inside it (line 50) are
  ordinary nested calls: every entry that throws on being called leaves its frames on the
  call stack until the whole step is over. The call stack is finite. The first argument
  \<open>d\<close> is the number of nested calls of \<^verbatim>\<open>this.processQueue()\<close> for which the stack
  still has room. With no room left the call at line 38 raises \<^verbatim>\<open>RangeError\<close>. That
  call stands after the \<^verbatim>\<open>try\<close> block, so the error is not caught there: it rejects
  the promise of the wrapper, which the \<^verbatim>\<open>await fn()\<close> one frame up passes on to a
  promise that nobody reads, all frames return, and neither field is written again in this
  step.
\<close>

function processQueue :: "nat \<Rightarrow> ('v, 'e) synchronized \<Rightarrow> ('v, 'e) synchronized"
  and wrapper_call :: "nat \<Rightarrow> nat \<times> ('v, 'e) work \<Rightarrow> ('v, 'e) synchronized \<Rightarrow> ('v, 'e) synchronized" where
  "processQueue d s =
     (if queue s \<noteq> [] then
        wrapper_call d (hd (queue s)) (s\<lparr>isRunning := True, queue := tl (queue s)\<rparr>)
      else s\<lparr>isRunning := False\<rparr>)"
| "wrapper_call d (p, w) s =
     (case w of
        Throws e \<Rightarrow>
          (case d of
             0 \<Rightarrow> s\<lparr>promises := deliver p (Rejected e) (promises s),
                     history := history s @ [Begin p, End p]\<rparr>
           | Suc d' \<Rightarrow>
               processQueue d' (s\<lparr>promises := deliver p (Rejected e) (promises s),
                                  history := history s @ [Begin p, End p]\<rparr>))
      | Returns out \<Rightarrow>
          s\<lparr>awaiting := awaiting s @ [(p, out)], history := history s @ [Begin p]\<rparr>)"
  by pat_completeness auto
termination
  by (relation "measure (\<lambda>x. case x of Inl (d, s) \<Rightarrow> 2 * d + 1 | Inr (d, f, s) \<Rightarrow> 2 * d)")
     auto

declare processQueue.simps [simp del]

text \<open>
  The wrapper after its \<^verbatim>\<open>await\<close>: the promise of section \<open>p\<close> has settled, the
  wrapper calls \<^verbatim>\<open>resolve(result)\<close> or \<^verbatim>\<open>reject(error)\<close> and then
  \<^verbatim>\<open>this.processQueue()\<close>. A settlement that no wrapper awaits changes nothing. The
  resumption and the call of \<^verbatim>\<open>execute\<close> below start a step; \<open>d\<close> is the room that
  the stack has below their own call of \<^verbatim>\<open>this.processQueue()\<close>.
\<close>

definition settle :: "nat \<Rightarrow> nat \<Rightarrow> ('v, 'e) synchronized \<Rightarrow> ('v, 'e) synchronized" where
  "settle d p s =
     (case map_of (awaiting s) p of
        None \<Rightarrow> s
      | Some out \<Rightarrow>
          processQueue d (s\<lparr>awaiting := filter (\<lambda>a. fst a \<noteq> p) (awaiting s),
                            promises := deliver p out (promises s),
                            history := history s @ [End p]\<rparr>))"

text \<open>
  \<^verbatim>\<open>execute\<close>: the executor of \<^verbatim>\<open>new Promise\<close> runs inside the call. It pushes the
  wrapper and, when \<^verbatim>\<open>isRunning\<close> is false, calls \<^verbatim>\<open>this.processQueue()\<close>. The
  result is the new promise and the state in which \<^verbatim>\<open>execute\<close> returns.
\<close>

definition execute :: "nat \<Rightarrow> ('v, 'e) work \<Rightarrow> ('v, 'e) synchronized \<Rightarrow> nat \<times> ('v, 'e) synchronized" where
  "execute d asyncFunction s =
     (let p = length (promises s);
          s1 = s\<lparr>promises := promises s @ [[]], queue := queue s @ [(p, asyncFunction)]\<rparr>
      in (p, if \<not> isRunning s1 then processQueue d s1 else s1))"

subsection \<open>Runs of one instance\<close>

datatype ('v, 'e) action = Submit "('v, 'e) work" | Settle nat

fun step :: "nat \<Rightarrow> ('v, 'e) action \<Rightarrow> ('v, 'e) synchronized \<Rightarrow> ('v, 'e) synchronized" where
  "step d (Submit w) s = snd (execute d w s)"
| "step d (Settle p) s = settle d p s"

definition run :: "nat \<Rightarrow> ('v, 'e) action list \<Rightarrow> ('v, 'e) synchronized" where
  "run d acts = foldl (\<lambda>s a. step d a s) constructor acts"

fun submitted :: "('v, 'e) action list \<Rightarrow> ('v, 'e) work list" where
  "submitted [] = []"
| "submitted (Submit w # acts) = w # submitted acts"
| "submitted (Settle p # acts) = submitted acts"

text \<open>
  \<open>drain\<close> lets every pending critical section settle, one after the other, until no
  wrapper is suspended any more.
\<close>

function drain :: "nat \<Rightarrow> ('v, 'e) synchronized \<Rightarrow> ('v, 'e) synchronized" where
  "drain d s = (case awaiting s of [] \<Rightarrow> s | a # as \<Rightarrow> drain d (settle d (fst a) s))"
  by pat_completeness auto
termination
proof (relation "measure (\<lambda>(d, s). length (queue s) + length (awaiting s))")
  show "wf (measure (\<lambda>(d, s). length (queue s) + length (awaiting s)))" by simp
next
  have size: "length (queue (processQueue d s)) + length (awaiting (processQueue d s))
                \<le> length (queue s) + length (awaiting s)"
    and "length (queue (wrapper_call d f s)) + length (awaiting (wrapper_call d f s))
                \<le> Suc (length (queue s) + length (awaiting s))"
    for d and s :: "('v, 'e) synchronized" and f
  proof (induction d s and d f s rule: processQueue_wrapper_call.induct)
    case (1 d s)
    show ?case
    proof (cases "queue s = []")
      case True
      then show ?thesis by (simp add: processQueue.simps)
    next
      case False
      with 1 show ?thesis
        by (cases "queue s") (simp_all add: processQueue.simps [of d s])
    qed
  next
    case (2 d p w s)
    then show ?case by (cases w; cases d) (auto intro: le_SucI)
  qed
  fix d and s :: "('v, 'e) synchronized" and a as
  assume aw: "awaiting s = a # as"
  obtain p out where a: "a = (p, out)" by (cases a)
  let ?t = "s\<lparr>awaiting := filter (\<lambda>a. fst a \<noteq> p) (awaiting s),
              promises := deliver p out (promises s),
              history := history s @ [End p]\<rparr>"
  have st: "settle d (fst a) s = processQueue d ?t"
    using aw a by (simp add: settle_def)
  have "length (filter (\<lambda>a. fst a \<noteq> p) (awaiting s)) \<le> length as"
    using aw a by (simp add: le_trans [OF length_filter_le])
  then have "length (queue ?t) + length (awaiting ?t) < length (queue s) + length (awaiting s)"
    using aw by simp
  with size [of d ?t] st
  show "((d, settle d (fst a) s), (d, s))
          \<in> measure (\<lambda>(d, s). length (queue s) + length (awaiting s))"
    by simp
qed

declare drain.simps [simp del]

subsection \<open>Notions used to state the properties\<close>

text \<open>
  What a critical section sends to its caller: the error it throws, or the settlement of the
  promise it returns.
\<close>

fun result_of :: "('v, 'e) work \<Rightarrow> ('v, 'e) outcome" where
  "result_of (Throws e) = Rejected e"
| "result_of (Returns out) = out"

fun throws :: "('v, 'e) work \<Rightarrow> bool" where
  "throws (Throws e) = True"
| "throws (Returns out) = False"

text \<open>The sections that have started, in the order in which they started.\<close>

fun begins :: "event list \<Rightarrow> nat list" where
  "begins [] = []"
| "begins (Begin p # h) = p # begins h"
| "begins (End p # h) = begins h"

text \<open>
  \<open>exclusive cur h\<close> reads a history in which section \<open>cur\<close> (if any) is open: a section
  may only start when none is open, and only the open section may end.
\<close>

fun exclusive :: "nat option \<Rightarrow> event list \<Rightarrow> bool" where
  "exclusive cur [] = True"
| "exclusive None (Begin p # h) = exclusive (Some p) h"
| "exclusive (Some q) (Begin p # h) = False"
| "exclusive None (End p # h) = False"
| "exclusive (Some q) (End p # h) = (p = q \<and> exclusive None h)"

text \<open>
  An input on which the stack runs out. One function that returns a promise is submitted,
  then \<open>d + 2\<close> times the function \<open>w\<close>; \<open>overflow_run\<close> takes for \<open>w\<close> a function that
  throws on being called and lets the first promise settle, so that the resumed wrapper
  meets \<open>d + 2\<close> throwing entries in a row with room for \<open>d\<close> nested calls.
\<close>

definition pending_then :: "nat \<Rightarrow> ('v, 'e) outcome \<Rightarrow> ('v, 'e) work \<Rightarrow> ('v, 'e) action list" where
  "pending_then d out w = Submit (Returns out) # replicate (d + 2) (Submit w)"

definition overflow_run :: "nat \<Rightarrow> ('v, 'e) outcome \<Rightarrow> 'e \<Rightarrow> ('v, 'e) action list" where
  "overflow_run d out e = pending_then d out (Throws e) @ [Settle 0]"

text \<open>
  The states of a run have a closed form. With \<open>ws\<close> the submitted functions in order of
  submission, the sections before \<open>k\<close> are over and the later ones are queued. In
  \<open>state_at ws k\<close> section \<open>k\<close> (if there is one) is suspended at its \<^verbatim>\<open>await\<close>; in
  \<open>stuck_at ws k\<close> the stack ran out after section \<open>k - 1\<close>, which left
  \<^verbatim>\<open>isRunning\<close> true with nothing suspended. \<open>next_stop ws j\<close> is the first section
  from \<open>j\<close> on that does not throw when called (or the number of sections).
\<close>

definition sections :: "nat \<Rightarrow> nat \<Rightarrow> event list" where
  "sections j k = concat (map (\<lambda>i. [Begin i, End i]) [j..<k])"

definition next_stop :: "('v, 'e) work list \<Rightarrow> nat \<Rightarrow> nat" where
  "next_stop ws j = j + length (takeWhile throws (drop j ws))"

definition delivered :: "('v, 'e) work list \<Rightarrow> nat \<Rightarrow> ('v, 'e) outcome list list" where
  "delivered ws k = map (\<lambda>i. if i < k then [result_of (ws ! i)] else []) [0..<length ws]"

definition entries :: "('v, 'e) work list \<Rightarrow> nat \<Rightarrow> (nat \<times> ('v, 'e) work) list" where
  "entries ws j = map (\<lambda>i. (i, ws ! i)) [j..<length ws]"

definition state_at :: "('v, 'e) work list \<Rightarrow> nat \<Rightarrow> ('v, 'e) synchronized" where
  "state_at ws k =
     \<lparr>queue = entries ws (Suc k),
      isRunning = (k < length ws),
      awaiting = (if k < length ws then [(k, result_of (ws ! k))] else []),
      promises = delivered ws k,
      history = sections 0 k @ (if k < length ws then [Begin k] else [])\<rparr>"

definition stuck_at :: "('v, 'e) work list \<Rightarrow> nat \<Rightarrow> ('v, 'e) synchronized" where
  "stuck_at ws k =
     \<lparr>queue = entries ws k, isRunning = True, awaiting = [],
      promises = delivered ws k, history = sections 0 k\<rparr>"

text \<open>
  Position \<open>k\<close> is one where a run can rest: all sections are over, or section \<open>k\<close>
  returned a promise.
\<close>

definition stop :: "('v, 'e) work list \<Rightarrow> nat \<Rightarrow> bool" where
  "stop ws k = (if k < length ws then \<not> throws (ws ! k) else k = length ws)"

text \<open>After the call with room for \<open>d\<close> nested calls has worked on the entries from \<open>j\<close> on.\<close>

definition after_queue :: "nat \<Rightarrow> ('v, 'e) work list \<Rightarrow> nat \<Rightarrow> ('v, 'e) synchronized" where
  "after_queue d ws j =
     (if next_stop ws j - j \<le> d then state_at ws (next_stop ws j) else stuck_at ws (Suc (j + d)))"

section \<open>The states of a run\<close>

lemma next_stop_end: "length ws \<le> j \<Longrightarrow> next_stop ws j = j"
  by (simp add: next_stop_def)

lemma next_stop_throws: "j < length ws \<Longrightarrow> throws (ws ! j) \<Longrightarrow> next_stop ws j = next_stop ws (Suc j)"
  by (simp add: next_stop_def Cons_nth_drop_Suc [symmetric])

lemma next_stop_returns: "j < length ws \<Longrightarrow> \<not> throws (ws ! j) \<Longrightarrow> next_stop ws j = j"
  by (simp add: next_stop_def Cons_nth_drop_Suc [symmetric])

lemma next_stop_le: "j \<le> length ws \<Longrightarrow> next_stop ws j \<le> length ws"
  unfolding next_stop_def using length_takeWhile_le [of throws "drop j ws"] by simp

lemma next_stop_ge: "j \<le> next_stop ws j"
  by (simp add: next_stop_def)

lemma next_stop_stops: "next_stop ws j < length ws \<Longrightarrow> \<not> throws (ws ! next_stop ws j)"
proof -
  assume a: "next_stop ws j < length ws"
  let ?m = "length (takeWhile throws (drop j ws))"
  from a have m: "?m < length (drop j ws)" by (simp add: next_stop_def)
  then have "\<not> throws (drop j ws ! ?m)" by (rule nth_length_takeWhile)
  moreover have "drop j ws ! ?m = ws ! (j + ?m)" using a by (simp add: next_stop_def)
  ultimately show ?thesis by (simp add: next_stop_def)
qed

lemma sections_Suc: "j \<le> k \<Longrightarrow> sections j (Suc k) = sections j k @ [Begin k, End k]"
  by (simp add: sections_def)

lemma entries_Cons: "j < length ws \<Longrightarrow> entries ws j = (j, ws ! j) # entries ws (Suc j)"
  by (simp add: entries_def upt_conv_Cons)

lemma entries_end: "length ws \<le> j \<Longrightarrow> entries ws j = []"
  by (simp add: entries_def)

lemma deliver_delivered:
  "j < length ws \<Longrightarrow> deliver j (result_of (ws ! j)) (delivered ws j) = delivered ws (Suc j)"
  by (rule nth_equalityI) (auto simp: deliver_def delivered_def nth_list_update)

lemma processQueue_after_queue:
  "j \<le> length ws \<Longrightarrow>
   processQueue d \<lparr>queue = entries ws j, isRunning = b, awaiting = [],
                   promises = delivered ws j, history = sections 0 j\<rparr>
     = after_queue d ws j"
proof (induction "length ws - j" arbitrary: j b d)
  case 0
  then have j: "j = length ws" by simp
  show ?case
    by (simp add: j processQueue.simps entries_end next_stop_end state_at_def after_queue_def)
next
  case (Suc m)
  then have j: "j < length ws" by simp
  show ?case
  proof (cases "ws ! j")
    case (Throws e)
    have ns: "next_stop ws j = next_stop ws (Suc j)"
      using j Throws by (simp add: next_stop_throws)
    have ge: "Suc j \<le> next_stop ws (Suc j)" by (rule next_stop_ge)
    show ?thesis
    proof (cases d)
      case 0
      have "processQueue d \<lparr>queue = entries ws j, isRunning = b, awaiting = [],
                 promises = delivered ws j, history = sections 0 j\<rparr> = stuck_at ws (Suc j)"
        using j Throws 0 deliver_delivered [OF j]
        by (subst processQueue.simps) (simp add: entries_Cons sections_Suc stuck_at_def)
      then show ?thesis using 0 ge by (simp add: after_queue_def ns)
    next
      case (Suc d')
      have "processQueue d \<lparr>queue = entries ws j, isRunning = b, awaiting = [],
                 promises = delivered ws j, history = sections 0 j\<rparr>
          = processQueue d' \<lparr>queue = entries ws (Suc j), isRunning = True, awaiting = [],
                 promises = delivered ws (Suc j), history = sections 0 (Suc j)\<rparr>"
        using j Throws Suc deliver_delivered [OF j]
        by (subst processQueue.simps) (simp add: entries_Cons sections_Suc)
      also have "\<dots> = after_queue d' ws (Suc j)"
        using Suc.hyps(2) j by (intro Suc.hyps(1)) simp_all
      also have "\<dots> = after_queue d ws j"
        using Suc ge by (auto simp: after_queue_def ns)
      finally show ?thesis .
    qed
  next
    case (Returns out)
    then have "next_stop ws j = j" using j by (simp add: next_stop_returns)
    then show ?thesis using j Returns
      by (subst processQueue.simps) (simp add: entries_Cons state_at_def after_queue_def)
  qed
qed

lemma length_promises_state_at: "length (promises (state_at ws k)) = length ws"
  by (simp add: state_at_def delivered_def)

lemma length_promises_stuck_at: "length (promises (stuck_at ws k)) = length ws"
  by (simp add: stuck_at_def delivered_def)

lemma isRunning_state_at: "isRunning (state_at ws k) \<longleftrightarrow> k < length ws"
  by (simp add: state_at_def)

lemma isRunning_stuck_at: "isRunning (stuck_at ws k)"
  by (simp add: stuck_at_def)

lemma state_at_push_busy:
  "k < length ws \<Longrightarrow>
   (state_at ws k)\<lparr>promises := promises (state_at ws k) @ [[]],
                   queue := queue (state_at ws k) @ [(length ws, w)]\<rparr> = state_at (ws @ [w]) k"
  by (auto simp: state_at_def entries_def delivered_def nth_append)

lemma stuck_at_push:
  "k \<le> length ws \<Longrightarrow>
   (stuck_at ws k)\<lparr>promises := promises (stuck_at ws k) @ [[]],
                   queue := queue (stuck_at ws k) @ [(length ws, w)]\<rparr> = stuck_at (ws @ [w]) k"
  by (auto simp: stuck_at_def entries_def delivered_def nth_append)

lemma state_at_push_idle:
  "(state_at ws (length ws))\<lparr>promises := promises (state_at ws (length ws)) @ [[]],
           queue := queue (state_at ws (length ws)) @ [(length ws, w)]\<rparr>
        = \<lparr>queue = entries (ws @ [w]) (length ws), isRunning = False, awaiting = [],
                 promises = delivered (ws @ [w]) (length ws), history = sections 0 (length ws)\<rparr>"
  by (auto simp: state_at_def entries_def delivered_def nth_append)

lemma execute_state_at_busy:
  "k < length ws \<Longrightarrow> execute d w (state_at ws k) = (length ws, state_at (ws @ [w]) k)"
  by (simp add: execute_def Let_def length_promises_state_at isRunning_state_at state_at_push_busy)

lemma execute_stuck_at:
  "k \<le> length ws \<Longrightarrow> execute d w (stuck_at ws k) = (length ws, stuck_at (ws @ [w]) k)"
  by (simp add: execute_def Let_def length_promises_stuck_at isRunning_stuck_at stuck_at_push)

lemma execute_state_at_idle:
  "execute d w (state_at ws (length ws)) = (length ws, after_queue d (ws @ [w]) (length ws))"
  using processQueue_after_queue [of "length ws" "ws @ [w]" d False]
  by (simp add: execute_def Let_def length_promises_state_at isRunning_state_at state_at_push_idle)

lemma settle_state_at:
  "k < length ws \<Longrightarrow> settle d k (state_at ws k) = after_queue d ws (Suc k)"
proof -
  assume k: "k < length ws"
  have "settle d k (state_at ws k)
      = processQueue d \<lparr>queue = entries ws (Suc k), isRunning = True, awaiting = [],
                 promises = delivered ws (Suc k), history = sections 0 (Suc k)\<rparr>"
    using k deliver_delivered [OF k] by (simp add: settle_def state_at_def sections_Suc)
  then show ?thesis using k processQueue_after_queue [of "Suc k" ws d True] by simp
qed

lemma settle_state_at_other:
  "p \<noteq> k \<or> length ws \<le> k \<Longrightarrow> settle d p (state_at ws k) = state_at ws k"
  by (auto simp: settle_def state_at_def)

lemma settle_stuck_at: "settle d p (stuck_at ws k) = stuck_at ws k"
  by (simp add: settle_def stuck_at_def)

lemma stop_next_stop: "j \<le> length ws \<Longrightarrow> stop ws (next_stop ws j)"
  using next_stop_le [of j ws] by (simp add: stop_def next_stop_stops)

lemma stop_le: "stop ws k \<Longrightarrow> k \<le> length ws"
  by (simp add: stop_def split: if_splits)

lemma after_queue_cases:
  assumes "j \<le> length ws"
  obtains k where "stop ws k" "j \<le> k" "after_queue d ws j = state_at ws k"
  | k where "k \<le> length ws" "j < k" "after_queue d ws j = stuck_at ws k"
proof (cases "next_stop ws j - j \<le> d")
  case True
  then show ?thesis
    using assms that(1) [of "next_stop ws j"]
    by (simp add: after_queue_def stop_next_stop next_stop_ge)
next
  case False
  then have "Suc (j + d) \<le> next_stop ws j" by simp
  with next_stop_le [OF assms] have "Suc (j + d) \<le> length ws" by simp
  then show ?thesis using False that(2) [of "Suc (j + d)"] by (simp add: after_queue_def)
qed

lemma run_snoc: "run d (acts @ [a]) = step d a (run d acts)"
  by (simp add: run_def)

lemma run_Submit: "run d (acts @ [Submit w]) = snd (execute d w (run d acts))"
  by (simp add: run_snoc)

lemma run_Settle: "run d (acts @ [Settle p]) = settle d p (run d acts)"
  by (simp add: run_snoc)

lemma submitted_append: "submitted (acts @ bs) = submitted acts @ submitted bs"
  by (induction acts rule: submitted.induct) simp_all

lemma run_cases:
  obtains k where "stop (submitted acts) k" "run d acts = state_at (submitted acts) k"
  | k where "k \<le> length (submitted acts)" "run d acts = stuck_at (submitted acts) k"
proof -
  have "(\<exists>k. stop (submitted acts) k \<and> run d acts = state_at (submitted acts) k)
      \<or> (\<exists>k. k \<le> length (submitted acts) \<and> run d acts = stuck_at (submitted acts) k)"
  proof (induction acts rule: rev_induct)
    case Nil
    have "stop ([] :: ('a, 'b) work list) 0" by (simp add: stop_def)
    moreover have "run d [] = state_at ([] :: ('a, 'b) work list) 0"
      by (simp add: run_def constructor_def state_at_def entries_def delivered_def sections_def)
    ultimately show ?case by auto
  next
    case (snoc a acts)
    let ?ws = "submitted acts"
    from snoc consider
      (at) k where "stop ?ws k" "run d acts = state_at ?ws k"
      | (stuck) k where "k \<le> length ?ws" "run d acts = stuck_at ?ws k"
      by blast
    then show ?case
    proof cases
      case at
      show ?thesis
      proof (cases a)
        case (Submit w)
        show ?thesis
        proof (cases "k < length ?ws")
          case True
          then have "run d (acts @ [a]) = state_at (?ws @ [w]) k"
            using at Submit by (simp add: run_snoc execute_state_at_busy)
          moreover have "stop (?ws @ [w]) k" using at True by (simp add: stop_def nth_append)
          ultimately show ?thesis using Submit by (auto simp: submitted_append)
        next
          case False
          then have kk: "k = length ?ws" using at by (simp add: stop_def)
          have r: "run d (acts @ [a]) = after_queue d (?ws @ [w]) (length ?ws)"
            using at kk Submit by (simp add: run_snoc execute_state_at_idle)
          have "length ?ws \<le> length (?ws @ [w])" by simp
          then show ?thesis
            by (rule after_queue_cases [where d = d]) (use r Submit in \<open>auto simp: submitted_append\<close>)
        qed
      next
        case (Settle p)
        show ?thesis
        proof (cases "p = k \<and> k < length ?ws")
          case True
          then have r: "run d (acts @ [a]) = after_queue d ?ws (Suc k)"
            using at Settle by (simp add: run_snoc settle_state_at)
          have "Suc k \<le> length ?ws" using True by simp
          then show ?thesis
            by (rule after_queue_cases [where d = d]) (use r Settle in \<open>auto simp: submitted_append\<close>)
        next
          case False
          then have "p \<noteq> k \<or> length ?ws \<le> k" by auto
          then have "run d (acts @ [a]) = state_at ?ws k"
            using at Settle by (simp add: run_snoc settle_state_at_other)
          then show ?thesis using at Settle by (auto simp: submitted_append)
        qed
      qed
    next
      case stuck
      show ?thesis
      proof (cases a)
        case (Submit w)
        then have "run d (acts @ [a]) = stuck_at (?ws @ [w]) k"
          using stuck by (simp add: run_snoc execute_stuck_at)
        moreover have "k \<le> length (?ws @ [w])" using stuck by simp
        ultimately show ?thesis using Submit by (auto simp: submitted_append)
      next
        case (Settle p)
        then have "run d (acts @ [a]) = stuck_at ?ws k"
          using stuck by (simp add: run_snoc settle_stuck_at)
        then show ?thesis using stuck Settle by (auto simp: submitted_append)
      qed
    qed
  qed
  then show ?thesis using that by blast
qed

lemma drain_stuck_at: "drain d (stuck_at ws k) = stuck_at ws k"
  by (subst drain.simps) (simp add: stuck_at_def)

lemma begins_append: "begins (h @ g) = begins h @ begins g"
  by (induction h rule: begins.induct) simp_all

lemma begins_sections: "begins (sections 0 k) = [0..<k]"
  by (induction k) (simp_all add: sections_def begins_append)

lemma exclusive_sections: "exclusive None (sections 0 k @ h) = exclusive None h"
  by (induction k arbitrary: h) (simp_all add: sections_def)

lemma Begin_sections: "Begin i \<in> set (sections 0 k) \<longleftrightarrow> i < k"
  by (induction k) (auto simp: sections_def)

lemma End_sections: "End i \<in> set (sections 0 k) \<longleftrightarrow> i < k"
  by (induction k) (auto simp: sections_def)

lemma Begin_state_at:
  "i \<le> k \<Longrightarrow> i < length ws \<Longrightarrow> Begin i \<in> set (history (state_at ws k))"
  by (cases "i = k") (simp_all add: state_at_def Begin_sections)

lemma fst_execute: "fst (execute d w s) = length (promises s)"
  by (simp add: execute_def Let_def)

lemma length_promises_run: "length (promises (run d acts)) = length (submitted acts)"
  by (rule run_cases [of acts d]) (simp_all add: length_promises_state_at length_promises_stuck_at)

lemma nth_delivered:
  "i < length ws \<Longrightarrow> delivered ws k ! i = (if i < k then [result_of (ws ! i)] else [])"
  by (simp add: delivered_def)

lemma submitted_nth: "submitted (acts @ Submit w # later) ! length (submitted acts) = w"
  by (simp add: submitted_append)

lemma fst_set_entries: "fst ` set (entries ws j) = {j..<length ws}"
  by (auto simp: entries_def image_iff)

lemma waiting_state_at:
  "k \<le> length ws \<Longrightarrow>
   fst ` set (queue (state_at ws k)) \<union> fst ` set (awaiting (state_at ws k)) = {k..<length ws}"
  by (auto simp: state_at_def fst_set_entries)

lemma waiting_stuck_at:
  "fst ` set (queue (stuck_at ws k)) \<union> fst ` set (awaiting (stuck_at ws k)) = {k..<length ws}"
  by (simp add: stuck_at_def fst_set_entries)

lemma End_state_at: "End i \<in> set (history (state_at ws k)) \<longleftrightarrow> i < k"
  by (simp add: state_at_def End_sections)

lemma idle_state_at: "stop ws k \<Longrightarrow> \<not> isRunning (state_at ws k) \<Longrightarrow> k = length ws"
  by (simp add: stop_def state_at_def split: if_splits)

lemma idle_run:
  "\<not> isRunning (run d acts) \<Longrightarrow> run d acts = state_at (submitted acts) (length (submitted acts))"
proof (rule run_cases [of acts d])
  fix k
  assume idle: "\<not> isRunning (run d acts)"
    and k: "stop (submitted acts) k" "run d acts = state_at (submitted acts) k"
  then have "k = length (submitted acts)" by (simp add: idle_state_at)
  with k show ?thesis by simp
next
  fix k
  assume "\<not> isRunning (run d acts)" and "run d acts = stuck_at (submitted acts) k"
  then show ?thesis by (simp add: isRunning_stuck_at)
qed

lemma idle_run_empty:
  "\<not> isRunning (run d acts) \<Longrightarrow> queue (run d acts) = [] \<and> awaiting (run d acts) = []"
  using idle_run [of d acts] by (simp add: state_at_def entries_end)

lemma execute_idle_history:
  "Begin (length ws) \<in> set (history (after_queue d (ws @ [w]) (length ws)))"
proof -
  have "length ws \<le> length (ws @ [w])" by simp
  then show ?thesis
  proof (rule after_queue_cases [where d = d])
    fix k
    assume "length ws \<le> k" "after_queue d (ws @ [w]) (length ws) = state_at (ws @ [w]) k"
    then show ?thesis by (simp add: Begin_state_at)
  next
    fix k
    assume "length ws < k" "after_queue d (ws @ [w]) (length ws) = stuck_at (ws @ [w]) k"
    then show ?thesis by (simp add: stuck_at_def Begin_sections)
  qed
qed

lemma take_delivered:
  "take (length ws) (delivered (ws @ [w]) k) = delivered ws (min k (length ws))"
  by (rule nth_equalityI) (auto simp: delivered_def nth_append)

lemma execute_idle_frame:
  "take (length ws) (promises (after_queue d (ws @ [w]) (length ws))) = delivered ws (length ws)
   \<and> length (promises (after_queue d (ws @ [w]) (length ws))) = Suc (length ws)
   \<and> queue (after_queue d (ws @ [w]) (length ws)) = []"
proof -
  have "length ws \<le> length (ws @ [w])" by simp
  then show ?thesis
  proof (rule after_queue_cases [where d = d])
    fix k
    assume "length ws \<le> k" "after_queue d (ws @ [w]) (length ws) = state_at (ws @ [w]) k"
    then show ?thesis
      using take_delivered [of ws w k]
      by (simp add: state_at_def entries_end min_def) (simp add: delivered_def)
  next
    fix k
    assume "length ws < k" "after_queue d (ws @ [w]) (length ws) = stuck_at (ws @ [w]) k"
    then show ?thesis
      using take_delivered [of ws w k]
      by (simp add: stuck_at_def entries_end min_def) (simp add: delivered_def)
  qed
qed

lemma submitted_replicate: "submitted (replicate m (Submit w)) = replicate m w"
  by (induction m) simp_all

lemma submitted_pending_then: "submitted (pending_then d out w) = Returns out # replicate (d + 2) w"
  by (simp add: pending_then_def submitted_replicate)

lemma submitted_overflow_run:
  "submitted (overflow_run d out e) = Returns out # replicate (d + 2) (Throws e)"
  by (simp add: overflow_run_def submitted_append submitted_pending_then)

lemma run_Nil: "run d [] = state_at [] 0"
  by (simp add: run_def constructor_def state_at_def entries_def delivered_def sections_def)

lemma run_pending:
  "run d (Submit (Returns out) # replicate m (Submit w)) = state_at (Returns out # replicate m w) 0"
proof (induction m)
  case 0
  have "run d ([] @ [Submit (Returns out)]) = snd (execute d (Returns out) (state_at [] 0))"
    by (simp only: run_Submit run_Nil)
  also have "\<dots> = after_queue d ([] @ [Returns out]) (length ([] :: ('a, 'b) work list))"
    using execute_state_at_idle [of d "Returns out" "[]"] by simp
  also have "\<dots> = state_at [Returns out] 0"
    by (simp add: after_queue_def next_stop_def)
  finally show ?case by simp
next
  case (Suc m)
  have "run d (Submit (Returns out) # replicate (Suc m) (Submit w))
      = run d ((Submit (Returns out) # replicate m (Submit w)) @ [Submit w])"
    by (simp add: replicate_append_same)
  also have "\<dots> = snd (execute d w (state_at (Returns out # replicate m w) 0))"
    by (simp only: run_Submit Suc)
  also have "\<dots> = state_at ((Returns out # replicate m w) @ [w]) 0"
    by (simp add: execute_state_at_busy)
  finally show ?case by (simp add: replicate_append_same)
qed

lemma after_queue_throwers:
  "d < m \<Longrightarrow>
   after_queue d (Returns out # replicate m (Throws e)) (Suc 0)
     = stuck_at (Returns out # replicate m (Throws e)) (Suc (Suc d))"
  by (simp add: after_queue_def next_stop_def)

lemma run_throwers:
  assumes "d < m"
  shows "run d ((Submit (Returns out) # replicate m (Submit (Throws e))) @ [Settle 0])
           = stuck_at (Returns out # replicate m (Throws e)) (Suc (Suc d))"
proof -
  let ?ws = "Returns out # replicate m (Throws e)"
  have "run d ((Submit (Returns out) # replicate m (Submit (Throws e))) @ [Settle 0])
      = settle d 0 (state_at ?ws 0)"
    by (simp only: run_Settle run_pending)
  also have "\<dots> = after_queue d ?ws (Suc 0)"
    by (rule settle_state_at) simp
  also have "\<dots> = stuck_at ?ws (Suc (Suc d))"
    using assms by (rule after_queue_throwers)
  finally show ?thesis .
qed

lemma run_overflow:
  "run d (overflow_run d out e) = stuck_at (submitted (overflow_run d out e)) (Suc (Suc d))"
  using run_throwers [of d "d + 2" out e]
  by (simp add: overflow_run_def pending_then_def submitted_append submitted_replicate)

lemma run_stuck_append:
  "run d acts = stuck_at (submitted acts) k \<Longrightarrow> k \<le> length (submitted acts) \<Longrightarrow>
   run d (acts @ later) = stuck_at (submitted (acts @ later)) k"
proof (induction later rule: rev_induct)
  case Nil
  then show ?case by simp
next
  case (snoc a later)
  then have ih: "run d (acts @ later) = stuck_at (submitted (acts @ later)) k" by simp
  have le: "k \<le> length (submitted (acts @ later))"
    using snoc.prems by (simp add: submitted_append)
  show ?case
  proof (cases a)
    case (Submit w)
    have "run d ((acts @ later) @ [Submit w]) = stuck_at (submitted (acts @ later) @ [w]) k"
      using le by (simp only: run_Submit ih) (simp add: execute_stuck_at)
    then show ?thesis using Submit by (simp add: submitted_append)
  next
    case (Settle p)
    have "run d ((acts @ later) @ [Settle p]) = stuck_at (submitted (acts @ later)) k"
      by (simp only: run_Settle ih settle_stuck_at)
    then show ?thesis using Settle by (simp add: submitted_append)
  qed
qed

lemma length_submitted_overflow_run: "length (submitted (overflow_run d out e)) = d + 3"
  by (simp add: submitted_overflow_run)

lemma run_overflow_later:
  "run d (overflow_run d out e @ later)
     = stuck_at (submitted (overflow_run d out e @ later)) (Suc (Suc d))"
  by (rule run_stuck_append [OF run_overflow]) (simp add: length_submitted_overflow_run)

lemma nth_Cons_replicate: "0 < i \<Longrightarrow> i \<le> m \<Longrightarrow> (x # replicate m y @ xs) ! i = y"
  by (cases i) (simp_all add: nth_append)

lemma nth_submitted_overflow_run:
  "0 < i \<Longrightarrow> i < d + 3 \<Longrightarrow> submitted (overflow_run d out e @ later) ! i = Throws e"
  using nth_Cons_replicate [of i "d + 2" "Returns out" "Throws e" "submitted later"]
  by (simp add: submitted_append submitted_overflow_run)

lemma next_stop_no_throw: "\<forall>w\<in>set ws. \<not> throws w \<Longrightarrow> next_stop ws j = j"
  by (cases "j < length ws") (simp_all add: next_stop_returns next_stop_end)

lemma drain_state_at_no_throw:
  "\<forall>w\<in>set ws. \<not> throws w \<Longrightarrow> k \<le> length ws \<Longrightarrow> drain d (state_at ws k) = state_at ws (length ws)"
proof (induction "length ws - k" arbitrary: k)
  case 0
  then have "k = length ws" by simp
  then show ?case by (subst drain.simps) (simp add: state_at_def)
next
  case (Suc m)
  then have k: "k < length ws" by simp
  have "drain d (state_at ws k) = drain d (settle d k (state_at ws k))"
    using k by (subst drain.simps) (simp add: state_at_def)
  also have "\<dots> = drain d (state_at ws (Suc k))"
    using k Suc.prems(1) by (simp add: settle_state_at after_queue_def next_stop_no_throw)
  also have "\<dots> = state_at ws (length ws)"
    using Suc.hyps(2) k Suc.prems(1) by (intro Suc.hyps(1)) simp_all
  finally show ?case .
qed

lemma drain_throwers:
  assumes "d < m"
  shows "drain d (state_at (Returns out # replicate m (Throws e)) 0)
           = stuck_at (Returns out # replicate m (Throws e)) (Suc (Suc d))"
proof -
  let ?ws = "Returns out # replicate m (Throws e)"
  have "drain d (state_at ?ws 0) = drain d (settle d 0 (state_at ?ws 0))"
    by (subst drain.simps) (simp add: state_at_def)
  also have "settle d 0 (state_at ?ws 0) = after_queue d ?ws (Suc 0)"
    by (rule settle_state_at) simp
  also have "\<dots> = stuck_at ?ws (Suc (Suc d))"
    using assms by (rule after_queue_throwers)
  finally show ?thesis by (simp only: drain_stuck_at)
qed

section \<open>Properties of the queue\<close>

text \<open>
  Claim C1. The promise returned by \<^verbatim>\<open>execute\<close> settles exactly as the submitted
  function does, whatever that function is and whatever happens before and after the
  submission. As long as its wrapper is queued or suspended no call has been made on the
  returned promise; from the moment the wrapper has left the queue and is not suspended,
  exactly one call has been made, and it passes on the outcome of the function unchanged:
  the value or the error with which its promise settled, or the error that it threw. That
  moment is the one at which the section is over in the history, so no outcome is
  swallowed.
\<close>

theorem execute_transparent:
  "promises (run d (acts @ Submit w # later)) ! fst (execute d w (run d acts))
     = (if fst (execute d w (run d acts))
            \<in> fst ` set (queue (run d (acts @ Submit w # later)))
              \<union> fst ` set (awaiting (run d (acts @ Submit w # later)))
        then [] else [result_of w])
   \<and> (End (fst (execute d w (run d acts))) \<in> set (history (run d (acts @ Submit w # later))))
       = (fst (execute d w (run d acts))
            \<notin> fst ` set (queue (run d (acts @ Submit w # later)))
              \<union> fst ` set (awaiting (run d (acts @ Submit w # later))))"
proof -
  let ?all = "acts @ Submit w # later"
  let ?ws = "submitted ?all"
  let ?p = "length (submitted acts)"
  have p: "fst (execute d w (run d acts)) = ?p"
    by (simp add: fst_execute length_promises_run)
  have w: "?ws ! ?p = w" by (rule submitted_nth)
  have lt: "?p < length ?ws" by (simp add: submitted_append)
  have "promises (run d ?all) ! ?p
     = (if ?p \<in> fst ` set (queue (run d ?all)) \<union> fst ` set (awaiting (run d ?all))
        then [] else [result_of w])
   \<and> (End ?p \<in> set (history (run d ?all)))
       = (?p \<notin> fst ` set (queue (run d ?all)) \<union> fst ` set (awaiting (run d ?all)))"
  proof (rule run_cases [of ?all d])
    fix k
    assume k: "stop ?ws k" "run d ?all = state_at ?ws k"
    then have "k \<le> length ?ws" by (simp add: stop_le)
    then have "fst ` set (queue (run d ?all)) \<union> fst ` set (awaiting (run d ?all))
        = {k..<length ?ws}"
      by (simp only: k(2) waiting_state_at)
    moreover have "promises (run d ?all) ! ?p = (if ?p < k then [result_of w] else [])"
      using lt w by (simp add: k(2) state_at_def nth_delivered)
    moreover have "End ?p \<in> set (history (run d ?all)) \<longleftrightarrow> ?p < k"
      by (simp only: k(2) End_state_at)
    ultimately show ?thesis using lt by auto
  next
    fix k
    assume k: "k \<le> length ?ws" "run d ?all = stuck_at ?ws k"
    have "fst ` set (queue (run d ?all)) \<union> fst ` set (awaiting (run d ?all))
        = {k..<length ?ws}"
      by (simp only: k(2) waiting_stuck_at)
    moreover have "promises (run d ?all) ! ?p = (if ?p < k then [result_of w] else [])"
      using lt w by (simp add: k(2) stuck_at_def nth_delivered)
    moreover have "End ?p \<in> set (history (run d ?all)) \<longleftrightarrow> ?p < k"
      by (simp add: k(2) stuck_at_def End_sections)
    ultimately show ?thesis using lt by auto
  qed
  then show ?thesis by (simp only: p)
qed

theorem execute_transparent_witness:
  "promises (run 3 ([Submit (Returns (Fulfilled (5::nat)))] @ Submit (Throws (7::nat))
       # [Submit (Returns (Rejected 9)), Settle 0]))
     ! fst (execute 3 (Throws (7::nat)) (run 3 [Submit (Returns (Fulfilled (5::nat)))]))
   = [Rejected 7]
   \<and> promises (run 3 ([Submit (Returns (Fulfilled (5::nat)))] @ Submit (Throws (7::nat))
       # [Submit (Returns (Rejected 9)), Settle 0])) = [[Fulfilled 5], [Rejected 7], []]"
  using execute_transparent [of 3 "[Submit (Returns (Fulfilled (5::nat)))]" "Throws (7::nat)"
      "[Submit (Returns (Rejected 9)), Settle 0]"]
  by code_simp

text \<open>
  Claim C2 fails in the code. A function that throws on being called makes its wrapper call
  \<^verbatim>\<open>this.processQueue()\<close> on the same call stack, so a row of such entries nests until
  the stack is full. Whatever the room \<open>d\<close> of the stack, after one pending section and
  \<open>d + 2\<close> throwing functions the drain stops before the last of them: it has been
  submitted, and it is never started, whatever is submitted or settles afterwards.
\<close>

theorem overflow_item_never_run:
  "begins (history (drain d (run d (overflow_run d out e @ later)))) = [0..<d + 2]
   \<and> d + 2 < length (submitted (overflow_run d out e @ later))
   \<and> submitted (overflow_run d out e @ later) ! (d + 2) = Throws e"
proof -
  have "begins (history (drain d (run d (overflow_run d out e @ later)))) = [0..<d + 2]"
    by (simp add: run_overflow_later drain_stuck_at) (simp add: stuck_at_def begins_sections)
  moreover have "d + 2 < length (submitted (overflow_run d out e @ later))"
    by (simp add: submitted_append length_submitted_overflow_run)
  moreover have "submitted (overflow_run d out e @ later) ! (d + 2) = Throws e"
    by (rule nth_submitted_overflow_run) simp_all
  ultimately show ?thesis by simp
qed

theorem overflow_item_never_run_witness:
  "begins (history (drain 2 (run 2 (overflow_run 2 (Fulfilled (1::nat)) (7::nat)
       @ [Submit (Returns (Fulfilled 5)), Settle 4])))) = [0, 1, 2, 3]
   \<and> submitted (overflow_run 2 (Fulfilled (1::nat)) (7::nat) @ [Submit (Returns (Fulfilled 5)), Settle 4])
       = [Returns (Fulfilled 1), Throws 7, Throws 7, Throws 7, Throws 7, Returns (Fulfilled 5)]"
  using overflow_item_never_run [of 2 "Fulfilled (1::nat)" "7::nat"
      "[Submit (Returns (Fulfilled 5)), Settle 4]"]
  by code_simp

text \<open>
  Claim C3. Mutual exclusion: in the history of every run a section starts only when no
  other section is open, and at most one wrapper is suspended at its \<^verbatim>\<open>await\<close>.
\<close>

theorem mutual_exclusion:
  "exclusive None (history (run d acts)) \<and> length (awaiting (run d acts)) \<le> 1"
proof (rule run_cases [of acts d])
  fix k
  assume "run d acts = state_at (submitted acts) k"
  then show ?thesis by (simp add: state_at_def exclusive_sections)
next
  fix k
  assume "run d acts = stuck_at (submitted acts) k"
  then show ?thesis using exclusive_sections [of k "[]"] by (simp add: stuck_at_def)
qed

theorem mutual_exclusion_witness:
  "exclusive None (history (run 3 [Submit (Returns (Fulfilled (1::nat))), Submit (Throws (2::nat)),
       Submit (Returns (Rejected 3)), Settle 0]))
   \<and> history (run 3 [Submit (Returns (Fulfilled (1::nat))), Submit (Throws (2::nat)),
       Submit (Returns (Rejected 3)), Settle 0]) = [Begin 0, End 0, Begin 1, End 1, Begin 2]"
  using mutual_exclusion [of 3 "[Submit (Returns (Fulfilled (1::nat))), Submit (Throws (2::nat)),
       Submit (Returns (Rejected 3)), Settle 0]"]
  by code_simp

text \<open>
  Claim C4 fails in the code. A failure is delivered to its own promise only, but a
  failure by throwing can stop the drain loop. On the input above the throwing function of
  section \<open>d + 1\<close> gets its rejection, and then the next queued entry is not started, the
  flag stays set, and a function submitted afterwards is never run: its promise has no call
  even after every pending section has settled.
\<close>

theorem overflow_failure_stops_drain:
  "promises (run d (overflow_run d out e @ Submit w # later)) ! (d + 1) = [Rejected e]
   \<and> Begin (d + 2) \<notin> set (history (run d (overflow_run d out e @ Submit w # later)))
   \<and> fst (execute d w (run d (overflow_run d out e))) = d + 3
   \<and> isRunning (drain d (run d (overflow_run d out e @ Submit w # later)))
   \<and> promises (drain d (run d (overflow_run d out e @ Submit w # later))) ! (d + 3) = []"
proof -
  let ?all = "overflow_run d out e @ Submit w # later"
  let ?ws = "submitted ?all"
  have s: "run d ?all = stuck_at ?ws (Suc (Suc d))" by (rule run_overflow_later)
  have len: "d + 3 < length ?ws"
    by (simp add: submitted_append length_submitted_overflow_run)
  have "?ws ! (d + 1) = Throws e" by (rule nth_submitted_overflow_run) simp_all
  then have 1: "promises (run d ?all) ! (d + 1) = [Rejected e]"
    using len by (simp add: s stuck_at_def nth_delivered)
  have 2: "Begin (d + 2) \<notin> set (history (run d ?all))"
    by (simp add: s stuck_at_def Begin_sections)
  have 3: "fst (execute d w (run d (overflow_run d out e))) = d + 3"
    by (simp add: fst_execute length_promises_run length_submitted_overflow_run)
  have 4: "isRunning (drain d (run d ?all))"
    by (simp add: s drain_stuck_at isRunning_stuck_at)
  have 5: "promises (drain d (run d ?all)) ! (d + 3) = []"
    using len by (simp add: s drain_stuck_at) (simp add: stuck_at_def nth_delivered)
  from 1 2 3 4 5 show ?thesis by simp
qed

theorem overflow_failure_stops_drain_witness:
  "promises (drain 2 (run 2 (overflow_run 2 (Fulfilled (1::nat)) (7::nat)
       @ Submit (Returns (Fulfilled 5)) # [Settle 5])))
     = [[Fulfilled 1], [Rejected 7], [Rejected 7], [Rejected 7], [], []]"
  using overflow_failure_stops_drain [of 2 "Fulfilled (1::nat)" "7::nat"
      "Returns (Fulfilled 5)" "[Settle 5]"]
  by code_simp

text \<open>
  Claim C5. The instance is a two-state machine. A new instance is idle: its queue is empty
  and \<^verbatim>\<open>isRunning\<close> is false. A drain step that finds the queue empty only sets
  \<^verbatim>\<open>isRunning\<close> to false: it starts nothing and leaves nothing behind that would run
  later. A call of \<^verbatim>\<open>execute\<close> while \<^verbatim>\<open>isRunning\<close> is true creates its promise and
  appends its wrapper, nothing more. On an idle instance of a run no settlement has any
  effect, and the next call of \<^verbatim>\<open>execute\<close> starts the submitted section.
\<close>

theorem idle_draining_machine:
  "(queue (constructor :: ('v, 'e) synchronized) = []
      \<and> \<not> isRunning (constructor :: ('v, 'e) synchronized)
      \<and> awaiting (constructor :: ('v, 'e) synchronized) = [])
   \<and> (queue (s :: ('v, 'e) synchronized) = [] \<longrightarrow> processQueue d s = s\<lparr>isRunning := False\<rparr>)
   \<and> (isRunning t \<longrightarrow>
        execute d w t = (length (promises t),
                         t\<lparr>promises := promises t @ [[]],
                           queue := queue t @ [(length (promises t), w)]\<rparr>))
   \<and> (\<not> isRunning (run d acts) \<longrightarrow>
        settle d p (run d acts) = run d acts
        \<and> Begin (fst (execute d w (run d acts))) \<in> set (history (snd (execute d w (run d acts)))))"
proof -
  have 1: "queue (constructor :: ('v, 'e) synchronized) = []
      \<and> \<not> isRunning (constructor :: ('v, 'e) synchronized)
      \<and> awaiting (constructor :: ('v, 'e) synchronized) = []"
    by (simp add: constructor_def)
  have 2: "queue s = [] \<longrightarrow> processQueue d s = s\<lparr>isRunning := False\<rparr>"
    by (simp add: processQueue.simps)
  have 3: "isRunning t \<longrightarrow>
        execute d w t = (length (promises t),
                         t\<lparr>promises := promises t @ [[]],
                           queue := queue t @ [(length (promises t), w)]\<rparr>)"
    by (simp add: execute_def Let_def)
  have 4: "settle d p (run d acts) = run d acts
        \<and> Begin (fst (execute d w (run d acts))) \<in> set (history (snd (execute d w (run d acts))))"
    if idle: "\<not> isRunning (run d acts)"
  proof -
    let ?ws = "submitted acts"
    have k: "run d acts = state_at ?ws (length ?ws)" using idle by (rule idle_run)
    have "settle d p (run d acts) = run d acts"
      by (simp add: k settle_state_at_other)
    moreover have "Begin (fst (execute d w (run d acts)))
        \<in> set (history (snd (execute d w (run d acts))))"
      by (simp add: k execute_state_at_idle execute_idle_history)
    ultimately show ?thesis by simp
  qed
  from 1 2 3 4 show ?thesis by blast
qed

theorem idle_draining_machine_witness:
  "queue (run 3 ([] :: (nat, nat) action list)) = []
   \<and> processQueue 3 (run 3 ([] :: (nat, nat) action list))
       = (run 3 ([] :: (nat, nat) action list))\<lparr>isRunning := False\<rparr>
   \<and> isRunning (run 3 [Submit (Returns (Fulfilled (1::nat))) :: (nat, nat) action])
   \<and> snd (execute 3 (Throws (2::nat)) (run 3 [Submit (Returns (Fulfilled (1::nat)))]))
       = \<lparr>queue = [(1, Throws 2)], isRunning = True, awaiting = [(0, Fulfilled 1)],
          promises = [[], []], history = [Begin 0]\<rparr>
   \<and> \<not> isRunning (run 3 ([] :: (nat, nat) action list))
   \<and> settle 3 0 (run 3 ([] :: (nat, nat) action list)) = run 3 []
   \<and> history (snd (execute 3 (Throws (2::nat)) (run 3 ([] :: (nat, nat) action list))))
       = [Begin 0, End 0]"
  using idle_draining_machine [where s = "run 3 ([] :: (nat, nat) action list)"
      and d = 3 and w = "Throws (2::nat)"
      and t = "run 3 [Submit (Returns (Fulfilled (1::nat))) :: (nat, nat) action]"
      and acts = "[] :: (nat, nat) action list" and p = 0]
  by code_simp



text \<open>
  Claim C7. Frame property of \<^verbatim>\<open>execute\<close>. In every state of a run, a call creates
  one promise and pushes one wrapper at the tail of the queue; when \<^verbatim>\<open>isRunning\<close> is
  true that is all it does, and otherwise the queue was empty and the call goes on with a
  drain step on the one new entry. In both cases the calls made so far on the older
  promises are unchanged, and the entries queued before are still queued, in the same order
  and in front. Entries leave the queue only through \<open>processQueue\<close>.
\<close>

theorem submit_frame:
  "execute d w (run d acts)
     = (length (submitted acts),
        if isRunning (run d acts)
        then (run d acts)\<lparr>promises := promises (run d acts) @ [[]],
                          queue := queue (run d acts) @ [(length (submitted acts), w)]\<rparr>
        else processQueue d ((run d acts)\<lparr>promises := promises (run d acts) @ [[]],
                                          queue := [(length (submitted acts), w)]\<rparr>))
   \<and> take (length (promises (run d acts))) (promises (snd (execute d w (run d acts))))
       = promises (run d acts)
   \<and> length (promises (snd (execute d w (run d acts)))) = Suc (length (promises (run d acts)))
   \<and> take (length (queue (run d acts))) (queue (snd (execute d w (run d acts))))
       = queue (run d acts)
   \<and> length (queue (snd (execute d w (run d acts)))) \<le> Suc (length (queue (run d acts)))"
proof -
  let ?ws = "submitted acts"
  let ?n = "length ?ws"
  have 1: "execute d w (run d acts)
     = (?n, if isRunning (run d acts)
        then (run d acts)\<lparr>promises := promises (run d acts) @ [[]],
                          queue := queue (run d acts) @ [(?n, w)]\<rparr>
        else processQueue d ((run d acts)\<lparr>promises := promises (run d acts) @ [[]],
                                          queue := [(?n, w)]\<rparr>))"
    using idle_run_empty [of d acts]
    by (auto simp: execute_def Let_def length_promises_run)
  have rest: "take (length (promises (run d acts))) (promises (snd (execute d w (run d acts))))
       = promises (run d acts)
   \<and> length (promises (snd (execute d w (run d acts)))) = Suc (length (promises (run d acts)))
   \<and> take (length (queue (run d acts))) (queue (snd (execute d w (run d acts))))
       = queue (run d acts)
   \<and> length (queue (snd (execute d w (run d acts)))) \<le> Suc (length (queue (run d acts)))"
  proof (cases "isRunning (run d acts)")
    case True
    then show ?thesis by (simp add: 1)
  next
    case False
    have s: "run d acts = state_at ?ws ?n" using False by (rule idle_run)
    have e: "snd (execute d w (run d acts)) = after_queue d (?ws @ [w]) ?n"
      by (simp add: s execute_state_at_idle)
    show ?thesis
      using execute_idle_frame [of ?ws d w]
      by (simp only: e length_promises_run) (simp add: s state_at_def entries_end)
  qed
  from 1 rest show ?thesis by blast
qed

theorem submit_frame_witness:
  "isRunning (run 3 [Submit (Returns (Fulfilled (1::nat))), Submit (Returns (Rejected (3::nat)))])
   \<and> execute 3 (Throws 2) (run 3 [Submit (Returns (Fulfilled (1::nat))), Submit (Returns (Rejected (3::nat)))])
       = (2, \<lparr>queue = [(1, Returns (Rejected 3)), (2, Throws 2)], isRunning = True,
               awaiting = [(0, Fulfilled 1)], promises = [[], [], []], history = [Begin 0]\<rparr>)"
  using submit_frame [of 3 "Throws 2"
      "[Submit (Returns (Fulfilled (1::nat))), Submit (Returns (Rejected (3::nat)))]"]
  by code_simp

text \<open>
  Claim C8, as amended. On an idle instance \<^verbatim>\<open>execute\<close> runs the drain step inside the
  call, so the submitted function is called before \<^verbatim>\<open>execute\<close> returns. What
  \<^verbatim>\<open>execute\<close> does not wait for is the promise that the function returns: the call
  comes back with \<^verbatim>\<open>isRunning\<close> true, the wrapper suspended and no call made yet on the
  returned promise; the outcome is delivered by a later step. (When the function throws on
  being called, the rejection too happens inside the call; the flag is false again when
  \<^verbatim>\<open>execute\<close> returns, unless the stack had no room for the nested call.)
\<close>

theorem submit_on_idle:
  "\<not> isRunning (run d acts) \<Longrightarrow>
     Begin (fst (execute d w (run d acts))) \<in> set (history (snd (execute d w (run d acts))))
     \<and> snd (execute d (Returns out) (run d acts))
         = (run d acts)\<lparr>isRunning := True,
                         awaiting := [(length (submitted acts), out)],
                         promises := promises (run d acts) @ [[]],
                         history := history (run d acts) @ [Begin (length (submitted acts))]\<rparr>
     \<and> snd (execute d (Throws e) (run d acts))
         = (run d acts)\<lparr>isRunning := (d = 0),
                         promises := promises (run d acts) @ [[Rejected e]],
                         history := history (run d acts)
                           @ [Begin (length (submitted acts)), End (length (submitted acts))]\<rparr>"
proof -
  assume idle: "\<not> isRunning (run d acts)"
  let ?ws = "submitted acts"
  let ?n = "length ?ws"
  have s: "run d acts = state_at ?ws ?n" using idle by (rule idle_run)
  have qa: "queue (run d acts) = []" "awaiting (run d acts) = []"
    using idle_run_empty [OF idle] by simp_all
  have len: "length (promises (run d acts)) = ?n" by (rule length_promises_run)
  have 1: "Begin (fst (execute d w (run d acts))) \<in> set (history (snd (execute d w (run d acts))))"
    by (simp add: s execute_state_at_idle execute_idle_history)
  have 2: "snd (execute d (Returns out) (run d acts))
         = (run d acts)\<lparr>isRunning := True,
                         awaiting := [(?n, out)],
                         promises := promises (run d acts) @ [[]],
                         history := history (run d acts) @ [Begin ?n]\<rparr>"
    using idle qa len
    by (intro synchronized.equality) (simp_all add: execute_def Let_def processQueue.simps)
  have 3: "snd (execute d (Throws e) (run d acts))
         = (run d acts)\<lparr>isRunning := (d = 0),
                         promises := promises (run d acts) @ [[Rejected e]],
                         history := history (run d acts) @ [Begin ?n, End ?n]\<rparr>"
    using idle qa
    by (simp only: len [symmetric], intro synchronized.equality)
       (auto simp: execute_def Let_def processQueue.simps deliver_def split: nat.splits)
  from 1 2 3 show ?thesis by blast
qed

theorem submit_on_idle_witness:
  "\<not> isRunning (run 3 ([] :: (nat, nat) action list))
   \<and> snd (execute 3 (Returns (Fulfilled (1::nat))) (run 3 ([] :: (nat, nat) action list)))
       = \<lparr>queue = [], isRunning = True, awaiting = [(0, Fulfilled 1)],
          promises = [[]], history = [Begin 0]\<rparr>
   \<and> snd (execute 3 (Throws (4::nat)) (run 3 ([] :: (nat, nat) action list)))
       = \<lparr>queue = [], isRunning = False, awaiting = [],
          promises = [[Rejected 4]], history = [Begin 0, End 0]\<rparr>"
proof -
  have h: "\<not> isRunning (run 3 ([] :: (nat, nat) action list))"
    by code_simp
  show ?thesis
    using h submit_on_idle [OF h, where w = "Throws 4" and out = "Fulfilled 1" and e = 4]
    by code_simp
qed

text \<open>
  Claim C8 as it is written (the submitted work has not begun when \<^verbatim>\<open>execute\<close> returns
  on an idle instance) fails on a new instance: in the state in which the first call of
  \<^verbatim>\<open>execute\<close> returns, the section of the returned promise has already started.
\<close>

theorem submit_starts_work_before_returning:
  "\<not> isRunning (constructor :: (nat, nat) synchronized)
   \<and> Begin (fst (execute 1000 (Returns (Fulfilled (1::nat))) (constructor :: (nat, nat) synchronized)))
       \<in> set (history (snd (execute 1000 (Returns (Fulfilled (1::nat)))
                                   (constructor :: (nat, nat) synchronized))))"
  by (simp add: execute_def constructor_def processQueue.simps)

text \<open>
  Claim C9 fails in the code. The error of a function that throws on being called is
  delivered as a rejection, but it is not handled like the rejection of a promise: the
  wrapper goes on to the next entry on the same call stack. After one pending section,
  \<open>d + 2\<close> functions whose promises reject are all run once every pending section has
  settled; \<open>d + 2\<close> functions that throw on being called are not: the last stays queued
  with \<^verbatim>\<open>isRunning\<close> true, because the error of the exhausted stack left a wrapper
  after its \<^verbatim>\<open>try\<close> block and the loop did not advance.
\<close>

theorem overflow_throw_unlike_rejection:
  "begins (history (drain d (run d (pending_then d out (Returns (Rejected e)))))) = [0..<d + 3]
   \<and> queue (drain d (run d (pending_then d out (Returns (Rejected e))))) = []
   \<and> begins (history (drain d (run d (pending_then d out (Throws e))))) = [0..<d + 2]
   \<and> queue (drain d (run d (pending_then d out (Throws e)))) = [(d + 2, Throws e)]
   \<and> isRunning (drain d (run d (pending_then d out (Throws e))))"
proof -
  let ?r = "Returns out # replicate (d + 2) (Returns (Rejected e))"
  let ?t = "Returns out # replicate (d + 2) (Throws e)"
  have "\<forall>w\<in>set ?r. \<not> throws w" by simp
  then have "drain d (state_at ?r 0) = state_at ?r (length ?r)"
    by (rule drain_state_at_no_throw) simp
  then have r: "drain d (run d (pending_then d out (Returns (Rejected e))))
      = state_at ?r (length ?r)"
    unfolding pending_then_def by (simp only: run_pending)
  have "drain d (state_at ?t 0) = stuck_at ?t (Suc (Suc d))"
    by (rule drain_throwers) simp
  then have t: "drain d (run d (pending_then d out (Throws e))) = stuck_at ?t (Suc (Suc d))"
    unfolding pending_then_def by (simp only: run_pending)
  have 1: "begins (history (drain d (run d (pending_then d out (Returns (Rejected e))))))
      = [0..<d + 3]"
    by (simp only: r) (simp add: state_at_def begins_sections eval_nat_numeral)
  have 2: "queue (drain d (run d (pending_then d out (Returns (Rejected e))))) = []"
    by (simp only: r) (simp add: state_at_def entries_end)
  have 3: "begins (history (drain d (run d (pending_then d out (Throws e))))) = [0..<d + 2]"
    by (simp only: t) (simp add: stuck_at_def begins_sections)
  have "entries ?t (Suc (Suc d)) = [(Suc (Suc d), ?t ! Suc (Suc d))]"
    using entries_Cons [of "Suc (Suc d)" ?t] by (simp add: entries_end)
  moreover have "?t ! Suc (Suc d) = Throws e"
    using nth_Cons_replicate [of "Suc (Suc d)" "d + 2" "Returns out" "Throws e" "[]"] by simp
  ultimately have 4: "queue (drain d (run d (pending_then d out (Throws e)))) = [(d + 2, Throws e)]"
    by (simp only: t) (simp add: stuck_at_def)
  have 5: "isRunning (drain d (run d (pending_then d out (Throws e))))"
    by (simp only: t isRunning_stuck_at)
  from 1 2 3 4 5 show ?thesis by simp
qed

theorem overflow_throw_unlike_rejection_witness:
  "drain 2 (run 2 (pending_then 2 (Fulfilled (1::nat)) (Returns (Rejected (7::nat)))))
     = \<lparr>queue = [], isRunning = False, awaiting = [],
        promises = [[Fulfilled 1], [Rejected 7], [Rejected 7], [Rejected 7], [Rejected 7]],
        history = [Begin 0, End 0, Begin 1, End 1, Begin 2, End 2, Begin 3, End 3,
                   Begin 4, End 4]\<rparr>
   \<and> drain 2 (run 2 (pending_then 2 (Fulfilled (1::nat)) (Throws (7::nat))))
     = \<lparr>queue = [(4, Throws 7)], isRunning = True, awaiting = [],
        promises = [[Fulfilled 1], [Rejected 7], [Rejected 7], [Rejected 7], []],
        history = [Begin 0, End 0, Begin 1, End 1, Begin 2, End 2, Begin 3, End 3]\<rparr>"
  using overflow_throw_unlike_rejection [of 2 "Fulfilled (1::nat)" "7::nat"]
  by code_simp

text \<open>
  Claim C10 fails in the code. No promise ever gets two calls, but a promise can be left
  without any: on the input above the promise returned for the last throwing function
  (promise \<open>d + 2\<close>) exists and has no call of \<^verbatim>\<open>resolve\<close> or \<^verbatim>\<open>reject\<close>, also
  after every pending section has settled and whatever is submitted or settles afterwards.
\<close>

theorem overflow_promise_never_settled:
  "d + 2 < length (promises (drain d (run d (overflow_run d out e @ later))))
   \<and> promises (drain d (run d (overflow_run d out e @ later))) ! (d + 2) = []
   \<and> fst (execute d (Throws e)
            (run d (Submit (Returns out) # replicate (d + 1) (Submit (Throws e))))) = d + 2"
proof -
  let ?all = "overflow_run d out e @ later"
  let ?ws = "submitted ?all"
  have s: "drain d (run d ?all) = stuck_at ?ws (Suc (Suc d))"
    by (simp only: run_overflow_later drain_stuck_at)
  have len: "d + 2 < length ?ws"
    by (simp add: submitted_append length_submitted_overflow_run)
  have 1: "d + 2 < length (promises (drain d (run d ?all)))"
    using len by (simp only: s length_promises_stuck_at)
  have 2: "promises (drain d (run d ?all)) ! (d + 2) = []"
    using len by (simp only: s) (simp add: stuck_at_def nth_delivered)
  have 3: "fst (execute d (Throws e)
            (run d (Submit (Returns out) # replicate (d + 1) (Submit (Throws e))))) = d + 2"
    by (simp add: fst_execute length_promises_run submitted_replicate)
  from 1 2 3 show ?thesis by simp
qed

theorem overflow_promise_never_settled_witness:
  "promises (drain 2 (run 2 (overflow_run 2 (Fulfilled (1::nat)) (7::nat) @ [Settle 4, Settle 0]))) ! 4
     = []
   \<and> length (promises (drain 2 (run 2 (overflow_run 2 (Fulfilled (1::nat)) (7::nat)
        @ [Settle 4, Settle 0])))) = 5"
  using overflow_promise_never_settled [of 2 "Fulfilled (1::nat)" "7::nat" "[Settle 4, Settle 0]"]
  by code_simp

end
